theory Spec2Isabelle
  imports Main "HOL-Library.Word" "HOL-Library.AList"
begin

section \<open>Strings\<close>

text \<open>
  A JavaScript string is a sequence of UTF-16 code units; \<open>charCodeAt\<close> reads one of them.
  Reading beyond the end (\<open>text[cursor]\<close>) gives \<open>undefined\<close>, which is \<open>None\<close> here.
\<close>

type_synonym jschar = "16 word"
type_synonym jsstring = "jschar list"

definition js :: "string \<Rightarrow> jsstring" where
  "js s = map of_char s"

definition SP :: jschar where "SP = 32"
definition NL :: jschar where "NL = 10"
definition HASH :: jschar where "HASH = 35"
definition BSL :: jschar where "BSL = 92"
definition TAB :: jschar where "TAB = 9"

definition char_at :: "jsstring \<Rightarrow> nat \<Rightarrow> jschar option" where
  "char_at text cursor = (if cursor < length text then Some (text ! cursor) else None)"

text \<open>Appending \<open>text[cursor]\<close> to a string: \<open>undefined\<close> is appended as its name.\<close>

definition str_of :: "jschar option \<Rightarrow> jsstring" where
  "str_of c = (case c of None \<Rightarrow> js ''undefined'' | Some ch \<Rightarrow> [ch])"

text \<open>
  \<open>String.prototype.trim\<close> removes the white space and line terminator code units of
  ECMAScript from both ends.
\<close>

definition is_whitespace :: "jschar \<Rightarrow> bool" where
  "is_whitespace c \<longleftrightarrow> c \<in> set [0x09, 0x0A, 0x0B, 0x0C, 0x0D, 0x20, 0xA0, 0x1680,
      0x2000, 0x2001, 0x2002, 0x2003, 0x2004, 0x2005, 0x2006, 0x2007, 0x2008, 0x2009, 0x200A,
      0x2028, 0x2029, 0x202F, 0x205F, 0x3000, 0xFEFF]"

definition trim :: "jsstring \<Rightarrow> jsstring" where
  "trim s = rev (dropWhile is_whitespace (rev (dropWhile is_whitespace s)))"

section \<open>Errors\<close>

text \<open>
  Every failure of the source is \<open>throw new Error(message)\<close>; an error is identified by its
  message alone. One constructor stands for one message template:
  \<^item> \<open>EnumCannotBeModified n\<close>: "Enum type n cannot be modified anymore."
  \<^item> \<open>UnclosedEnum n\<close>: "You cannot use unclosed enum n."
  \<^item> \<open>ExpectedValueOn cmd line\<close>: "Expected to see a value after <cmd> on line line"
  \<^item> \<open>ExpectedValueAt cmd line\<close>: "Expected to see a value after <cmd> at line line"
  \<^item> \<open>InvalidEscaping line\<close>: "Invalid escaping on line line"
  \<^item> \<open>InvalidCommand cmd line\<close>: "Invalid command <cmd> on line line"
  \<^item> \<open>NoOrigin\<close>: "Input definition has no origin."
  \<^item> \<open>MultipleOrigins\<close>: "Input definition has multiple origins."
\<close>

datatype error =
    EnumCannotBeModified string
  | UnclosedEnum string
  | ExpectedValueOn jsstring nat
  | ExpectedValueAt jsstring nat
  | InvalidEscaping nat
  | InvalidCommand jsstring nat
  | NoOrigin
  | MultipleOrigins

section \<open>enum.js\<close>

text \<open>
  The module keeps two tables keyed by the enum class: \<open>values\<close> (the next ordinal) and
  \<open>closed\<close>. The constants of an enum are the static properties of its class, in the order
  of their definition (\<open>Object.keys\<close>). A class is named by \<open>tyname\<close>; \<open>instanceof\<close> is
  the comparison of the object's constructor with the class. The private field that caches
  the result of \<open>name()\<close> cannot be observed and is left out.
\<close>

type_synonym tyname = string

record enum_object =
  constructor_of :: tyname
  ord_field :: nat

record 'o enum_state =
  values_tbl :: "tyname \<Rightarrow> nat option"
  closed :: "tyname \<Rightarrow> bool"
  frozen :: "tyname \<Rightarrow> bool"
  statics :: "tyname \<Rightarrow> (string \<times> 'o) list"

definition empty_state :: "'o enum_state" where
  "empty_state = \<lparr>values_tbl = (\<lambda>_. None), closed = (\<lambda>_. False), frozen = (\<lambda>_. False),
     statics = (\<lambda>_. [])\<rparr>"

text \<open>The constructor of \<open>Enum\<close>: returns the ordinal given to the new object.\<close>

definition Enum_constructor :: "'o enum_state \<Rightarrow> tyname \<Rightarrow> error + (nat \<times> 'o enum_state)" where
  "Enum_constructor st ty =
     (if closed st ty then Inl (EnumCannotBeModified ty)
      else let n = (case values_tbl st ty of None \<Rightarrow> 0 | Some k \<Rightarrow> k)
           in Inr (n, st\<lparr>values_tbl := (values_tbl st)(ty \<mapsto> n + 1)\<rparr>))"

definition Enum_ord :: "('a enum_object_scheme) enum_state \<Rightarrow> 'a enum_object_scheme \<Rightarrow> error + nat" where
  "Enum_ord st this =
     (if \<not> closed st (constructor_of this) then Inl (UnclosedEnum (constructor_of this))
      else Inr (ord_field this))"

text \<open>
  \<open>name()\<close>: the first static property of the class that holds an instance of the class with
  the same ordinal; \<open>undefined\<close> (\<open>None\<close>) when there is none. The calls of \<open>ord()\<close> inside
  cannot fail once the guard has passed.
\<close>

definition Enum_name :: "('a enum_object_scheme) enum_state \<Rightarrow> 'a enum_object_scheme \<Rightarrow> error + string option" where
  "Enum_name st this =
     (if \<not> closed st (constructor_of this) then Inl (UnclosedEnum (constructor_of this))
      else Inr (map_option fst
             (find (\<lambda>(key, v). constructor_of v = constructor_of this \<and> ord_field v = ord_field this)
                (statics st (constructor_of this)))))"

definition Enum_values :: "('a enum_object_scheme) enum_state \<Rightarrow> tyname \<Rightarrow> 'a enum_object_scheme list" where
  "Enum_values st ty = map snd (filter (\<lambda>(key, v). constructor_of v = ty) (statics st ty))"

text \<open>\<open>find(item => item.name() === name)\<close>: an error of \<open>name()\<close> ends the search.\<close>

fun find_by_name :: "('a enum_object_scheme) enum_state \<Rightarrow> string \<Rightarrow> 'a enum_object_scheme list
    \<Rightarrow> error + 'a enum_object_scheme option" where
  "find_by_name st name [] = Inr None"
| "find_by_name st name (item # items) =
     (case Enum_name st item of
        Inl e \<Rightarrow> Inl e
      | Inr n \<Rightarrow> if n = Some name then Inr (Some item) else find_by_name st name items)"

definition Enum_fromName :: "('a enum_object_scheme) enum_state \<Rightarrow> tyname \<Rightarrow> string
    \<Rightarrow> error + 'a enum_object_scheme option" where
  "Enum_fromName st ty name = find_by_name st name (Enum_values st ty)"

definition Enum_close :: "'o enum_state \<Rightarrow> tyname \<Rightarrow> 'o enum_state" where
  "Enum_close st ty = st\<lparr>closed := (closed st)(ty := True), frozen := (frozen st)(ty := True)\<rparr>"

text \<open>
  The assignment \<open>Class.key = obj\<close>: a new property goes to the end, an existing one keeps
  its place; on a frozen class nothing changes.
\<close>

definition static_set :: "'o enum_state \<Rightarrow> tyname \<Rightarrow> string \<Rightarrow> 'o \<Rightarrow> 'o enum_state" where
  "static_set st ty key obj =
     (if frozen st ty then st
      else st\<lparr>statics := (statics st)(ty := AList.update key obj (statics st ty))\<rparr>)"

section \<open>parser.js: CommandType\<close>

record CommandType = enum_object +
  tokens :: "jsstring list"

type_synonym state = "CommandType enum_state"

definition CommandType_class :: tyname where
  "CommandType_class = ''CommandType''"

definition CommandType_constructor :: "state \<Rightarrow> jsstring list \<Rightarrow> error + (CommandType \<times> state)" where
  "CommandType_constructor st toks =
     (case Enum_constructor st CommandType_class of
        Inl e \<Rightarrow> Inl e
      | Inr (n, st') \<Rightarrow>
          Inr (\<lparr>constructor_of = CommandType_class, ord_field = n, tokens = toks\<rparr>, st'))"

text \<open>\<open>CommandType.KEY = new CommandType(token, ...tokens)\<close>\<close>

definition define_CommandType :: "string \<Rightarrow> jsstring list \<Rightarrow> error + state \<Rightarrow> error + state" where
  "define_CommandType key toks r =
     (case r of
        Inl e \<Rightarrow> Inl e
      | Inr st \<Rightarrow>
          (case CommandType_constructor st toks of
             Inl e \<Rightarrow> Inl e
           | Inr (obj, st') \<Rightarrow> Inr (static_set st' CommandType_class key obj)))"

text \<open>The statements of the module, in their order, ending with \<open>CommandType.close()\<close>.\<close>

definition parser_module :: "error + state" where
  "parser_module =
     (case define_CommandType ''ENTRYPOINT'' [js ''ENTRYPOINT'', js ''CMD'']
            (define_CommandType ''WORKDIR'' [js ''WORKDIR'']
            (define_CommandType ''COPY'' [js ''COPY'']
            (define_CommandType ''RUN'' [js ''RUN'', js ''EXEC'']
            (define_CommandType ''ORIGIN'' [js ''FROM''] (Inr empty_state))))) of
        Inl e \<Rightarrow> Inl e
      | Inr st \<Rightarrow> Inr (Enum_close st CommandType_class))"

text \<open>The state in which the parser runs: the one the module leaves behind.\<close>

definition loaded :: state where
  "loaded = (case parser_module of Inr st \<Rightarrow> st | Inl e \<Rightarrow> empty_state)"

text \<open>The static property \<open>CommandType.key\<close>.\<close>

definition CommandType_static :: "string \<Rightarrow> CommandType option" where
  "CommandType_static key = map_of (statics loaded CommandType_class) key"

definition fromToken :: "state \<Rightarrow> jsstring \<Rightarrow> CommandType option" where
  "fromToken st token = find (\<lambda>v. token \<in> set (tokens v)) (Enum_values st CommandType_class)"

section \<open>parser.js: Command\<close>

text \<open>
  \<open>hash\<close> is a JavaScript number holding an integer far below \<open>2^53\<close>, so \<open>-\<close> and \<open>+\<close> are
  exact. \<open><<\<close> converts its operand to a signed 32-bit integer, shifts and wraps; \<open>|= 0\<close>
  wraps to a signed 32-bit integer.
\<close>

definition to_int32 :: "int \<Rightarrow> int" where
  "to_int32 x = (x + 2 ^ 31) mod 2 ^ 32 - 2 ^ 31"

definition shl :: "int \<Rightarrow> nat \<Rightarrow> int" where
  "shl x n = to_int32 (to_int32 x * 2 ^ (n mod 32))"

primrec hash_loop :: "int \<Rightarrow> jsstring \<Rightarrow> int" where
  "hash_loop hash [] = hash"
| "hash_loop hash (chr # rest) = hash_loop (to_int32 ((shl hash 5 - hash) + uint chr)) rest"

record Command =
  cmd_type :: CommandType
  cmd_value :: jsstring
  cmd_hash :: int

definition Command_constructor :: "state \<Rightarrow> CommandType \<Rightarrow> jsstring \<Rightarrow> error + Command" where
  "Command_constructor st type v =
     (let val = trim v in
      case Enum_ord st type of
        Inl e \<Rightarrow> Inl e
      | Inr n \<Rightarrow>
          (let hash = int n;
               hash = shl hash 5 - hash
           in Inr \<lparr>cmd_type = type, cmd_value = val, cmd_hash = hash_loop hash val\<rparr>))"

definition hashCode :: "Command \<Rightarrow> int" where
  "hashCode c = cmd_hash c"

section \<open>parser.js: Parser.parse\<close>

text \<open>\<open>while (cursor < text.length && text[cursor] === ' ') cursor++\<close>\<close>

function skip_spaces :: "jsstring \<Rightarrow> nat \<Rightarrow> nat" where
  "skip_spaces text cursor =
     (if cursor < length text \<and> char_at text cursor = Some SP
      then skip_spaces text (cursor + 1) else cursor)"
  by pat_completeness auto
termination
  by (relation "measure (\<lambda>(text, cursor). length text - cursor)") auto

text \<open>\<open>while (cursor < text.length && text[cursor] !== '\n') cursor++\<close>\<close>

function skip_line :: "jsstring \<Rightarrow> nat \<Rightarrow> nat" where
  "skip_line text cursor =
     (if cursor < length text \<and> char_at text cursor \<noteq> Some NL
      then skip_line text (cursor + 1) else cursor)"
  by pat_completeness auto
termination
  by (relation "measure (\<lambda>(text, cursor). length text - cursor)") auto

text \<open>
  The token loop. The result is the token, the cursor and the flag \<open>skip\<close>.
\<close>

function read_cmd :: "jsstring \<Rightarrow> nat \<Rightarrow> nat \<Rightarrow> jsstring \<Rightarrow> error + (jsstring \<times> nat \<times> bool)" where
  "read_cmd text cursor line cmd =
     (if cursor < length text \<and> char_at text cursor \<noteq> Some SP then
        if char_at text cursor = Some HASH then Inr (cmd, skip_line text cursor, True)
        else if char_at text cursor = Some NL then Inl (ExpectedValueOn cmd line)
        else read_cmd text (cursor + 1) line (cmd @ str_of (char_at text cursor))
      else Inr (cmd, cursor, False))"
  by pat_completeness auto
termination
  by (relation "measure (\<lambda>(text, cursor, line, cmd). length text - cursor)") auto

text \<open>
  The argument loop. The result is the argument, the cursor and the line counter.
\<close>

function read_args :: "jsstring \<Rightarrow> nat \<Rightarrow> nat \<Rightarrow> jsstring \<Rightarrow> error + (jsstring \<times> nat \<times> nat)" where
  "read_args text cursor line args =
     (if cursor < length text \<and> char_at text cursor \<noteq> Some NL then
        if char_at text cursor = Some BSL \<and> cursor = length text - 1 then
          Inl (InvalidEscaping line)
        else if char_at text cursor \<noteq> Some BSL \<and> char_at text cursor = Some HASH then
          Inr (args, skip_line text cursor, line)
        else
          (let cursor' = (if char_at text cursor = Some BSL then cursor + 1 else cursor);
               line' = (if char_at text cursor' = Some NL then line + 1 else line)
           in read_args text (cursor' + 1) line' (args @ str_of (char_at text cursor')))
      else Inr (args, cursor, line))"
  by pat_completeness auto
termination
  by (relation "measure (\<lambda>(text, cursor, line, args). length text - cursor)") auto

declare skip_spaces.simps [simp del] skip_line.simps [simp del]
  read_cmd.simps [simp del] read_args.simps [simp del]

text \<open>The branch \<open>if (!skip)\<close>: the spaces after the token, then the argument.\<close>

definition read_argument :: "jsstring \<Rightarrow> nat \<Rightarrow> nat \<Rightarrow> jsstring \<Rightarrow> error + (jsstring \<times> nat \<times> nat)" where
  "read_argument text cursor0 line cmd =
     (let cursor = skip_spaces text cursor0 in
      if cursor \<ge> length text \<or> char_at text cursor = Some NL then Inl (ExpectedValueAt cmd line)
      else read_args text cursor line [])"

datatype outcome = Break | Continue nat nat "Command list"

text \<open>The end of an iteration: trimming, the two checks and the new command.\<close>

definition finish :: "jsstring \<Rightarrow> jsstring \<Rightarrow> nat \<Rightarrow> nat \<Rightarrow> Command list \<Rightarrow> error + outcome" where
  "finish cmd args0 cursor line result =
     (let args = trim args0 in
      if cmd \<noteq> [] \<and> args = [] then Inl (ExpectedValueOn cmd line)
      else if cmd \<noteq> [] \<and> args \<noteq> [] then
        (case fromToken loaded cmd of
           None \<Rightarrow> Inl (InvalidCommand cmd line)
         | Some type \<Rightarrow>
             (case Command_constructor loaded type args of
                Inl e \<Rightarrow> Inl e
              | Inr c \<Rightarrow> Inr (Continue cursor line (result @ [c]))))
      else Inr (Continue cursor line result))"

text \<open>One pass through the body of the outer loop.\<close>

definition iteration :: "jsstring \<Rightarrow> nat \<Rightarrow> nat \<Rightarrow> Command list \<Rightarrow> error + outcome" where
  "iteration text cursor0 line result =
     (let cursor = skip_spaces text cursor0 in
      if char_at text cursor = Some NL then Inr (Continue (cursor + 1) (line + 1) result)
      else if cursor \<ge> length text then Inr Break
      else
        (case read_cmd text cursor line [] of
           Inl e \<Rightarrow> Inl e
         | Inr (cmd, cursor1, skip) \<Rightarrow>
             (case (if \<not> skip then read_argument text cursor1 line cmd
                    else Inr ([], cursor1, line)) of
                Inl e \<Rightarrow> Inl e
              | Inr (args, cursor2, line') \<Rightarrow> finish cmd args cursor2 line' result)))"

text \<open>
  The outer loop \<open>while (cursor < text.length)\<close>. Every pass that continues has moved the
  cursor forward, which is why the loop ends.
\<close>

function parse_loop :: "jsstring \<Rightarrow> nat \<Rightarrow> nat \<Rightarrow> Command list \<Rightarrow> error + Command list" where
  "parse_loop text cursor line result =
     (if cursor < length text then
        (case iteration text cursor line result of
           Inl e \<Rightarrow> Inl e
         | Inr Break \<Rightarrow> Inr result
         | Inr (Continue cursor' line' result') \<Rightarrow> parse_loop text cursor' line' result')
      else Inr result)"
  by pat_completeness auto
termination
proof (relation "measure (\<lambda>(text, cursor, line, result). length text - cursor)")
  show "wf (measure (\<lambda>(text :: jsstring, cursor :: nat, line :: nat, result :: Command list).
      length text - cursor))"
    by simp
next
  fix t :: jsstring and cursor line :: nat and result :: "Command list" and x2 c l r
  assume lt: "cursor < length t" and it: "iteration t cursor line result = Inr x2"
    and x2: "x2 = Continue c l r"
  have spaces_ge: "k \<le> skip_spaces u k" for u k
  proof (induction u k rule: skip_spaces.induct)
    case (1 u k)
    show ?case
    proof (cases "k < length u \<and> char_at u k = Some SP")
      case True
      then have "k + 1 \<le> skip_spaces u (k + 1)" using 1 by simp
      with True show ?thesis by (subst skip_spaces.simps) simp
    next
      case False
      then show ?thesis by (subst skip_spaces.simps) auto
    qed
  qed
  have spaces_stop: "char_at u (skip_spaces u k) \<noteq> Some SP" if "skip_spaces u k < length u" for u k
    using that
  proof (induction u k rule: skip_spaces.induct)
    case (1 u k)
    show ?case
    proof (cases "k < length u \<and> char_at u k = Some SP")
      case True
      then have eq: "skip_spaces u k = skip_spaces u (k + 1)"
        by (subst skip_spaces.simps) simp
      from "1.prems" eq have "skip_spaces u (k + 1) < length u" by simp
      with "1.IH" True have "char_at u (skip_spaces u (k + 1)) \<noteq> Some SP" by blast
      with eq show ?thesis by simp
    next
      case False
      then have eq: "skip_spaces u k = k" by (subst skip_spaces.simps) auto
      from "1.prems" eq have "k < length u" by simp
      with False eq show ?thesis by simp
    qed
  qed
  have line_ge: "k \<le> skip_line u k" for u k
  proof (induction u k rule: skip_line.induct)
    case (1 u k)
    show ?case
    proof (cases "k < length u \<and> char_at u k \<noteq> Some NL")
      case True
      then have "k + 1 \<le> skip_line u (k + 1)" using 1 by simp
      with True show ?thesis by (subst skip_line.simps) simp
    next
      case False
      then show ?thesis by (subst skip_line.simps) auto
    qed
  qed
  have cmd_ge: "k \<le> k'" if "read_cmd u k n a = Inr (a', k', s)" for u k n a a' k' s
    using that
  proof (induction u k n a rule: read_cmd.induct)
    case (1 u k n a)
    show ?case
    proof (cases "k < length u \<and> char_at u k \<noteq> Some SP")
      case inside: True
      show ?thesis
      proof (cases "char_at u k = Some HASH")
        case True
        with inside "1.prems" have "k' = skip_line u k"
          by (subst (asm) read_cmd.simps) (simp add: SP_def NL_def HASH_def BSL_def)
        with line_ge [of k u] show ?thesis by simp
      next
        case False
        with inside "1.prems" have nl: "char_at u k \<noteq> Some NL"
          by (subst (asm) read_cmd.simps) (simp add: SP_def NL_def HASH_def BSL_def split: if_splits)
        with False inside "1.prems"
        have "read_cmd u (k + 1) n (a @ str_of (char_at u k)) = Inr (a', k', s)"
          by (subst (asm) read_cmd.simps) (simp add: SP_def NL_def HASH_def BSL_def)
        with "1.IH" inside False nl have "k + 1 \<le> k'" by blast
        then show ?thesis by simp
      qed
    next
      case False
      with "1.prems" have "k' = k" by (subst (asm) read_cmd.simps) auto
      then show ?thesis by simp
    qed
  qed
  have args_ge: "k \<le> k'" if "read_args u k n a = Inr (a', k', n')" for u k n a a' k' n'
    using that
  proof (induction u k n a rule: read_args.induct)
    case (1 u k n a)
    show ?case
    proof (cases "k < length u \<and> char_at u k \<noteq> Some NL")
      case inside: True
      show ?thesis
      proof (cases "char_at u k \<noteq> Some BSL \<and> char_at u k = Some HASH")
        case True
        with inside "1.prems" have "k' = skip_line u k"
          by (subst (asm) read_args.simps) (simp add: SP_def NL_def HASH_def BSL_def)
        with line_ge [of k u] show ?thesis by simp
      next
        case False
        define k1 where "k1 = (if char_at u k = Some BSL then k + 1 else k)"
        define n1 where "n1 = (if char_at u k1 = Some NL then n + 1 else n)"
        from inside "1.prems" have noerr: "\<not> (char_at u k = Some BSL \<and> k = length u - 1)"
          by (subst (asm) read_args.simps) (simp add: SP_def NL_def HASH_def BSL_def split: if_splits)
        with False inside "1.prems"
        have rec: "read_args u (k1 + 1) n1 (a @ str_of (char_at u k1)) = Inr (a', k', n')"
          unfolding k1_def n1_def
          by (subst (asm) read_args.simps) (auto simp add: Let_def SP_def NL_def HASH_def BSL_def split: if_splits)
        from "1.IH" [OF inside noerr False k1_def n1_def rec] have "k1 + 1 \<le> k'" .
        then show ?thesis by (simp add: k1_def split: if_splits)
      qed
    next
      case False
      with "1.prems" have "k' = k" by (subst (asm) read_args.simps) auto
      then show ?thesis by simp
    qed
  qed
  let ?c0 = "skip_spaces t cursor"
  have c0: "cursor \<le> ?c0" by (rule spaces_ge)
  have "cursor < c"
  proof (cases "char_at t ?c0 = Some NL")
    case True
    with it x2 c0 show ?thesis by (simp add: iteration_def Let_def)
  next
    case False
    with it x2 have inside: "?c0 < length t"
      by (simp add: iteration_def Let_def split: if_splits)
    then have nsp: "char_at t ?c0 \<noteq> Some SP" by (rule spaces_stop)
    from it x2 False inside obtain cmd c1 skip where
      rc: "read_cmd t ?c0 line [] = Inr (cmd, c1, skip)"
      by (cases "read_cmd t ?c0 line []") (auto simp: iteration_def Let_def)
    from it x2 False inside rc obtain args c2 l2 where
      ra: "(if \<not> skip then read_argument t c1 line cmd else Inr ([], c1, line)) = Inr (args, c2, l2)"
      by (cases "if \<not> skip then read_argument t c1 line cmd else Inr ([], c1, line)")
        (auto simp: iteration_def Let_def)
    from it x2 False inside rc ra have fi: "finish cmd args c2 l2 result = Inr (Continue c l r)"
      by (simp add: iteration_def Let_def)
    have "?c0 < c1"
    proof (cases "char_at t ?c0 = Some HASH")
      case True
      with rc inside nsp have "c1 = skip_line t ?c0"
        by (subst (asm) read_cmd.simps) (simp add: SP_def NL_def HASH_def BSL_def)
      moreover from inside False have "skip_line t ?c0 = skip_line t (?c0 + 1)"
        by (subst skip_line.simps) simp
      moreover have "?c0 + 1 \<le> skip_line t (?c0 + 1)" by (rule line_ge)
      ultimately show ?thesis by simp
    next
      case nohash: False
      with rc inside nsp False
      have "read_cmd t (?c0 + 1) line ([] @ str_of (char_at t ?c0)) = Inr (cmd, c1, skip)"
        by (subst (asm) read_cmd.simps) (simp add: SP_def NL_def HASH_def BSL_def)
      then have "?c0 + 1 \<le> c1" by (rule cmd_ge)
      then show ?thesis by simp
    qed
    moreover have "c1 \<le> c2"
    proof (cases skip)
      case True
      with ra show ?thesis by simp
    next
      case False
      with ra have "read_args t (skip_spaces t c1) line [] = Inr (args, c2, l2)"
        by (simp add: read_argument_def Let_def split: if_splits)
      then have "skip_spaces t c1 \<le> c2" by (rule args_ge)
      with spaces_ge [of c1 t] show ?thesis by simp
    qed
    moreover from fi have "c = c2"
      by (simp add: finish_def Let_def split: if_splits option.splits sum.splits)
    ultimately show ?thesis using c0 by simp
  qed
  with lt show "((t, c, l, r), (t, cursor, line, result))
      \<in> measure (\<lambda>(text, cursor, line, result). length text - cursor)"
    by simp
qed

declare parse_loop.simps [simp del]

text \<open>The checks on the document, made after the loop.\<close>

definition check_document :: "Command list \<Rightarrow> error + Command list" where
  "check_document result =
     (if length result > 0 \<and> Some (cmd_type (result ! 0)) \<noteq> CommandType_static ''ORIGIN'' then
        Inl NoOrigin
      else if length result > 0 \<and>
          length (filter (\<lambda>cmd. Some (cmd_type cmd) = CommandType_static ''ORIGIN'') result) > 1 then
        Inl MultipleOrigins
      else if length result > 0 \<and>
          length (filter (\<lambda>cmd. Some (cmd_type cmd) = CommandType_static ''ENTRYPOINT'') result) > 1 then
        Inl MultipleOrigins
      else Inr result)"

text \<open>The loop from \<open>line = 1\<close>, \<open>cursor = 0\<close>, \<open>result = []\<close>.\<close>

definition scan :: "jsstring \<Rightarrow> error + Command list" where
  "scan text = parse_loop text 0 1 []"

definition parse :: "jsstring \<Rightarrow> error + Command list" where
  "parse text = (case scan text of Inl e \<Rightarrow> Inl e | Inr result \<Rightarrow> check_document result)"

text \<open>
  The state at the head of the outer loop after \<open>n\<close> passes that all continued, if the
  loop gets that far.
\<close>

fun state_after :: "jsstring \<Rightarrow> nat \<Rightarrow> (nat \<times> nat \<times> Command list) option" where
  "state_after text 0 = Some (0, 1, [])"
| "state_after text (Suc n) =
     (case state_after text n of
        None \<Rightarrow> None
      | Some (cursor, line, result) \<Rightarrow>
          if cursor < length text then
            (case iteration text cursor line result of
               Inr (Continue cursor' line' result') \<Rightarrow> Some (cursor', line', result')
             | _ \<Rightarrow> None)
          else None)"

section \<open>Notions of the specification\<close>

text \<open>
  The fingerprint in the words of the specification, on 32-bit two's-complement words:
  \<open>h := ordinal; h := (h << 5) - h\<close>, then for each character code
  \<open>h := ((h << 5) - h) + c\<close>, wrapping.
\<close>

definition fingerprint_step :: "32 word \<Rightarrow> jschar \<Rightarrow> 32 word" where
  "fingerprint_step h c = (push_bit 5 h - h) + ucast c"

definition fingerprint :: "nat \<Rightarrow> jsstring \<Rightarrow> int" where
  "fingerprint ordinal v =
     sint (foldl fingerprint_step (push_bit 5 (word_of_nat ordinal) - word_of_nat ordinal) v)"

text \<open>The physical lines of a text: the pieces between newlines.\<close>

fun lines_of :: "jsstring \<Rightarrow> jsstring list" where
  "lines_of [] = [[]]"
| "lines_of (c # cs) =
     (if c = NL then [] # lines_of cs
      else (case lines_of cs of [] \<Rightarrow> [[c]] | l # ls \<Rightarrow> (c # l) # ls))"

text \<open>A blank line holds spaces only; a comment-only line has \<open>#\<close> after its leading spaces.\<close>

definition blank_or_comment :: "jsstring \<Rightarrow> bool" where
  "blank_or_comment l = (case dropWhile (\<lambda>c. c = SP) l of [] \<Rightarrow> True | c # _ \<Rightarrow> c = HASH)"

text \<open>A character that the token loop appends to the token.\<close>

definition token_char :: "jschar \<Rightarrow> bool" where
  "token_char c \<longleftrightarrow> c \<noteq> SP \<and> c \<noteq> HASH \<and> c \<noteq> NL"

text \<open>
  Argument text in which every backslash is followed by the character it escapes and no
  comment or line end occurs outside an escape.
\<close>

fun escaped_run :: "jsstring \<Rightarrow> bool" where
  "escaped_run [] = True"
| "escaped_run [c] = (c \<noteq> BSL \<and> c \<noteq> HASH \<and> c \<noteq> NL)"
| "escaped_run (c # d # cs) =
     (if c = BSL then escaped_run cs else c \<noteq> HASH \<and> c \<noteq> NL \<and> escaped_run (d # cs))"

section \<open>The loaded module\<close>

lemma parser_module_eval:
  "\<exists>st. parser_module = Inr st \<and>
     closed st CommandType_class \<and>
     statics st CommandType_class =
       [(''ORIGIN'', \<lparr>constructor_of = CommandType_class, ord_field = 0, tokens = [js ''FROM'']\<rparr>),
        (''RUN'', \<lparr>constructor_of = CommandType_class, ord_field = 1, tokens = [js ''RUN'', js ''EXEC'']\<rparr>),
        (''COPY'', \<lparr>constructor_of = CommandType_class, ord_field = 2, tokens = [js ''COPY'']\<rparr>),
        (''WORKDIR'', \<lparr>constructor_of = CommandType_class, ord_field = 3, tokens = [js ''WORKDIR'']\<rparr>),
        (''ENTRYPOINT'', \<lparr>constructor_of = CommandType_class, ord_field = 4, tokens = [js ''ENTRYPOINT'', js ''CMD'']\<rparr>)]"
  by (simp add: parser_module_def define_CommandType_def CommandType_constructor_def
      Enum_constructor_def static_set_def Enum_close_def empty_state_def eval_nat_numeral)

lemma loaded_facts:
  "closed loaded CommandType_class"
  "statics loaded CommandType_class =
       [(''ORIGIN'', \<lparr>constructor_of = CommandType_class, ord_field = 0, tokens = [js ''FROM'']\<rparr>),
        (''RUN'', \<lparr>constructor_of = CommandType_class, ord_field = 1, tokens = [js ''RUN'', js ''EXEC'']\<rparr>),
        (''COPY'', \<lparr>constructor_of = CommandType_class, ord_field = 2, tokens = [js ''COPY'']\<rparr>),
        (''WORKDIR'', \<lparr>constructor_of = CommandType_class, ord_field = 3, tokens = [js ''WORKDIR'']\<rparr>),
        (''ENTRYPOINT'', \<lparr>constructor_of = CommandType_class, ord_field = 4, tokens = [js ''ENTRYPOINT'', js ''CMD'']\<rparr>)]"
proof -
  from parser_module_eval obtain st where pm: "parser_module = Inr st"
    and st: "closed st CommandType_class" "statics st CommandType_class =
       [(''ORIGIN'', \<lparr>constructor_of = CommandType_class, ord_field = 0, tokens = [js ''FROM'']\<rparr>),
        (''RUN'', \<lparr>constructor_of = CommandType_class, ord_field = 1, tokens = [js ''RUN'', js ''EXEC'']\<rparr>),
        (''COPY'', \<lparr>constructor_of = CommandType_class, ord_field = 2, tokens = [js ''COPY'']\<rparr>),
        (''WORKDIR'', \<lparr>constructor_of = CommandType_class, ord_field = 3, tokens = [js ''WORKDIR'']\<rparr>),
        (''ENTRYPOINT'', \<lparr>constructor_of = CommandType_class, ord_field = 4, tokens = [js ''ENTRYPOINT'', js ''CMD'']\<rparr>)]"
    by blast
  have "loaded = st" unfolding loaded_def pm by simp
  with st show "closed loaded CommandType_class" by simp
  from \<open>loaded = st\<close> st show "statics loaded CommandType_class =
       [(''ORIGIN'', \<lparr>constructor_of = CommandType_class, ord_field = 0, tokens = [js ''FROM'']\<rparr>),
        (''RUN'', \<lparr>constructor_of = CommandType_class, ord_field = 1, tokens = [js ''RUN'', js ''EXEC'']\<rparr>),
        (''COPY'', \<lparr>constructor_of = CommandType_class, ord_field = 2, tokens = [js ''COPY'']\<rparr>),
        (''WORKDIR'', \<lparr>constructor_of = CommandType_class, ord_field = 3, tokens = [js ''WORKDIR'']\<rparr>),
        (''ENTRYPOINT'', \<lparr>constructor_of = CommandType_class, ord_field = 4, tokens = [js ''ENTRYPOINT'', js ''CMD'']\<rparr>)]"
    by simp
qed

lemma static_cases:
  assumes "CommandType_static key = Some obj"
  shows "constructor_of obj = CommandType_class \<and> ord_field obj < 5"
  using assms by (auto simp: CommandType_static_def loaded_facts split: if_splits)

section \<open>The fingerprint\<close>

lemma to_int32_sint: "to_int32 x = sint (word_of_int x :: 32 word)"
  by (simp add: to_int32_def int_word_sint)

lemma step_refines: "to_int32 ((shl (sint w) 5 - sint w) + uint c) = sint (fingerprint_step w c)"
  by (simp add: to_int32_sint shl_def fingerprint_step_def push_bit_eq_mult)

lemma hash_loop_refines: "hash_loop (sint w) v = sint (foldl fingerprint_step w v)"
  by (induction v arbitrary: w) (simp_all add: step_refines)

lemma small_ordinal:
  assumes "n < 5"
  shows "shl (int n) 5 - int n = sint (push_bit 5 (word_of_nat n) - word_of_nat n :: 32 word)"
proof -
  from assms consider "n = 0" | "n = 1" | "n = 2" | "n = 3" | "n = 4" by linarith
  then show ?thesis
    by cases (simp_all add: shl_def to_int32_def)
qed

text \<open>
  C2. For each of the five kinds and every value string, the constructor of \<open>Command\<close>
  succeeds, stores the trimmed value, and its hash code is the fingerprint of the kind's
  ordinal and the trimmed value as the specification computes it on wrapping signed 32-bit
  integers; the ordinals are ORIGIN = 0, RUN = 1, COPY = 2, WORKDIR = 3, ENTRYPOINT = 4.
\<close>

theorem fingerprint_refines:
  "(CommandType_static key = Some kind \<longrightarrow>
      Command_constructor loaded kind v =
        Inr \<lparr>cmd_type = kind, cmd_value = trim v,
             cmd_hash = fingerprint (ord_field kind) (trim v)\<rparr> \<and>
      map_sum id hashCode (Command_constructor loaded kind v) =
        Inr (fingerprint (ord_field kind) (trim v))) \<and>
   map (\<lambda>k. map_option ord_field (CommandType_static k))
     [''ORIGIN'', ''RUN'', ''COPY'', ''WORKDIR'', ''ENTRYPOINT''] =
     [Some 0, Some 1, Some 2, Some 3, Some 4]"
proof (intro conjI impI)
  assume a: "CommandType_static key = Some kind"
  then have c: "constructor_of kind = CommandType_class" and n: "ord_field kind < 5"
    using static_cases by blast+
  from c have "Enum_ord loaded kind = Inr (ord_field kind)"
    by (simp add: Enum_ord_def loaded_facts)
  then show con: "Command_constructor loaded kind v =
        Inr \<lparr>cmd_type = kind, cmd_value = trim v,
             cmd_hash = fingerprint (ord_field kind) (trim v)\<rparr>"
    by (simp add: Command_constructor_def Let_def fingerprint_def small_ordinal [OF n]
        hash_loop_refines)
  show "map_sum id hashCode (Command_constructor loaded kind v) =
        Inr (fingerprint (ord_field kind) (trim v))"
    by (simp add: con hashCode_def)
next
  show "map (\<lambda>k. map_option ord_field (CommandType_static k))
     [''ORIGIN'', ''RUN'', ''COPY'', ''WORKDIR'', ''ENTRYPOINT''] =
     [Some 0, Some 1, Some 2, Some 3, Some 4]"
    by (simp add: CommandType_static_def loaded_facts)
qed

theorem fingerprint_refines_witness:
  "CommandType_static ''ORIGIN'' =
     Some \<lparr>constructor_of = ''CommandType'', ord_field = 0, tokens = [js ''FROM'']\<rparr> \<and>
   Command_constructor loaded
       \<lparr>constructor_of = ''CommandType'', ord_field = 0, tokens = [js ''FROM'']\<rparr>
       (js '' ubuntu:20.04 '') =
     Inr \<lparr>cmd_type = \<lparr>constructor_of = ''CommandType'', ord_field = 0, tokens = [js ''FROM'']\<rparr>,
          cmd_value = js ''ubuntu:20.04'', cmd_hash = - 2084109983\<rparr>"
proof -
  let ?k = "\<lparr>constructor_of = ''CommandType'', ord_field = 0, tokens = [js ''FROM'']\<rparr>"
  have h: "CommandType_static ''ORIGIN'' = Some ?k"
    by code_simp
  have t: "trim (js '' ubuntu:20.04 '') = js ''ubuntu:20.04''"
    by code_simp
  have f: "fingerprint 0 (js ''ubuntu:20.04'') = - 2084109983"
    by code_simp
  from fingerprint_refines [of "''ORIGIN''" ?k "js '' ubuntu:20.04 ''"] h t f
  show ?thesis by simp
qed

section \<open>Document checks\<close>

text \<open>
  C3. A document with one ORIGIN and two ENTRYPOINT commands is rejected with the very
  error that a document with two ORIGIN commands gets, "Input definition has multiple
  origins.": the two failures cannot be told apart.
\<close>

theorem multiple_entrypoint_same_error:
  "parse (js ''FROM a\<newline>CMD x\<newline>CMD y\<newline>'') = Inl MultipleOrigins \<and>
   parse (js ''FROM a\<newline>FROM b\<newline>'') = Inl MultipleOrigins"
  by code_simp

text \<open>
  C4. When the loop produces a non-empty command sequence whose first command is not of
  kind ORIGIN, the parse fails with "Input definition has no origin."; so does the parse
  of "RUN x\n".
\<close>

theorem missing_origin:
  "(scan text = Inr (c # cs) \<and> Some (cmd_type c) \<noteq> CommandType_static ''ORIGIN'' \<longrightarrow>
      parse text = Inl NoOrigin) \<and>
   parse (js ''RUN x\<newline>'') = Inl NoOrigin"
proof (intro conjI impI)
  assume "scan text = Inr (c # cs) \<and> Some (cmd_type c) \<noteq> CommandType_static ''ORIGIN''"
  then show "parse text = Inl NoOrigin"
    by (simp add: parse_def check_document_def)
next
  show "parse (js ''RUN x\<newline>'') = Inl NoOrigin"
    by code_simp
qed

theorem missing_origin_witness:
  "scan (js ''EXEC ls\<newline>COPY a b'') =
     Inr [\<lparr>cmd_type = \<lparr>constructor_of = ''CommandType'', ord_field = 1,
                          tokens = [js ''RUN'', js ''EXEC'']\<rparr>,
            cmd_value = js ''ls'', cmd_hash = 33254\<rparr>,
          \<lparr>cmd_type = \<lparr>constructor_of = ''CommandType'', ord_field = 2,
                          tokens = [js ''COPY'']\<rparr>,
            cmd_value = js ''a b'', cmd_hash = 1941349\<rparr>] \<and>
   parse (js ''EXEC ls\<newline>COPY a b'') = Inl NoOrigin"
proof -
  let ?c = "\<lparr>cmd_type = \<lparr>constructor_of = ''CommandType'', ord_field = 1,
                          tokens = [js ''RUN'', js ''EXEC'']\<rparr>,
            cmd_value = js ''ls'', cmd_hash = 33254\<rparr>"
  let ?d = "\<lparr>cmd_type = \<lparr>constructor_of = ''CommandType'', ord_field = 2,
                          tokens = [js ''COPY'']\<rparr>,
            cmd_value = js ''a b'', cmd_hash = 1941349\<rparr>"
  have s: "scan (js ''EXEC ls\<newline>COPY a b'') = Inr [?c, ?d]"
    by code_simp
  have n: "Some (cmd_type ?c) \<noteq> CommandType_static ''ORIGIN''"
    by code_simp
  from missing_origin [of "js ''EXEC ls\<newline>COPY a b''" ?c "[?d]"] s n
  show ?thesis by simp
qed

section \<open>Escaped newlines\<close>

text \<open>
  C1, as stated, fails: for "FROM a\nCOPY x \\\ny\n" the value of the COPY command is not
  "x y". The escaped newline is appended to the argument like any other escaped character,
  so the value is "x ", a newline, "y".
\<close>

theorem escaped_newline_value:
  "map_sum id (map cmd_value)
     (parse (js ''FROM a\<newline>COPY x '' @ [BSL, NL] @ js ''y\<newline>'')) =
     Inr [js ''a'', js ''x '' @ [NL] @ js ''y''] \<and>
   map_sum id (map cmd_value)
     (parse (js ''FROM a\<newline>COPY x '' @ [BSL, NL] @ js ''y\<newline>'')) \<noteq>
     Inr [js ''a'', js ''x y'']"
  by code_simp

text \<open>
  C1, amended. Parsing "FROM a\nCOPY x \\\ny\n" succeeds with an ORIGIN command of value
  "a" and a COPY command whose value keeps the escaped newline: "x ", newline, "y". The
  pass that reads the COPY line starts at cursor 7 with the line counter at 2 and ends at
  cursor 17 with the counter at 3: the argument loop, entered at cursor 12, advances the
  counter by one at the escaped newline.
\<close>

theorem escaped_newline_continuation:
  "parse (js ''FROM a\<newline>COPY x '' @ [BSL, NL] @ js ''y\<newline>'') =
     Inr [\<lparr>cmd_type = \<lparr>constructor_of = ''CommandType'', ord_field = 0,
                          tokens = [js ''FROM'']\<rparr>,
            cmd_value = js ''a'', cmd_hash = 97\<rparr>,
          \<lparr>cmd_type = \<lparr>constructor_of = ''CommandType'', ord_field = 2,
                          tokens = [js ''COPY'']\<rparr>,
            cmd_value = js ''x '' @ [NL] @ js ''y'', cmd_hash = 60864405\<rparr>] \<and>
   state_after (js ''FROM a\<newline>COPY x '' @ [BSL, NL] @ js ''y\<newline>'') 2 =
     Some (7, 2,
         [\<lparr>cmd_type = \<lparr>constructor_of = ''CommandType'', ord_field = 0,
                          tokens = [js ''FROM'']\<rparr>,
            cmd_value = js ''a'', cmd_hash = 97\<rparr>]) \<and>
   read_args (js ''FROM a\<newline>COPY x '' @ [BSL, NL] @ js ''y\<newline>'') 12 2 [] =
     Inr (js ''x '' @ [NL] @ js ''y'', 17, 3) \<and>
   state_after (js ''FROM a\<newline>COPY x '' @ [BSL, NL] @ js ''y\<newline>'') 3 =
     Some (17, 3,
         [\<lparr>cmd_type = \<lparr>constructor_of = ''CommandType'', ord_field = 0,
                          tokens = [js ''FROM'']\<rparr>,
            cmd_value = js ''a'', cmd_hash = 97\<rparr>,
          \<lparr>cmd_type = \<lparr>constructor_of = ''CommandType'', ord_field = 2,
                          tokens = [js ''COPY'']\<rparr>,
            cmd_value = js ''x '' @ [NL] @ js ''y'', cmd_hash = 60864405\<rparr>])"
  by code_simp

section \<open>Scanning\<close>

lemma char_distinct [simp]:
  "SP \<noteq> NL" "SP \<noteq> HASH" "SP \<noteq> BSL" "SP \<noteq> TAB" "NL \<noteq> SP" "NL \<noteq> HASH" "NL \<noteq> BSL" "NL \<noteq> TAB"
  "HASH \<noteq> SP" "HASH \<noteq> NL" "HASH \<noteq> BSL" "HASH \<noteq> TAB" "BSL \<noteq> SP" "BSL \<noteq> NL" "BSL \<noteq> HASH"
  "BSL \<noteq> TAB" "TAB \<noteq> SP" "TAB \<noteq> NL" "TAB \<noteq> HASH" "TAB \<noteq> BSL"
  by (simp_all add: SP_def NL_def HASH_def BSL_def TAB_def)

lemma drop_Cons_facts:
  assumes "drop c text = x # xs"
  shows "c < length text" "char_at text c = Some x" "drop (c + 1) text = xs"
proof -
  from assms show lt: "c < length text" by (cases "c < length text") simp_all
  from Cons_nth_drop_Suc [OF lt] assms have "text ! c = x" "drop (Suc c) text = xs" by simp_all
  with lt show "char_at text c = Some x" "drop (c + 1) text = xs" by (simp_all add: char_at_def)
qed

lemma skip_spaces_drop:
  assumes "drop c text = replicate k SP @ rest" "rest = [] \<or> hd rest \<noteq> SP"
  shows "skip_spaces text c = c + k"
  using assms
proof (induction k arbitrary: c)
  case 0
  show ?case
  proof (cases rest)
    case Nil
    with 0 have "length text \<le> c" by simp
    then show ?thesis by (subst skip_spaces.simps) simp
  next
    case (Cons x xs)
    with 0 have "char_at text c = Some x" "x \<noteq> SP" using drop_Cons_facts(2) [of c "text" x xs] by simp_all
    then show ?thesis by (subst skip_spaces.simps) simp
  qed
next
  case (Suc k)
  from Suc.prems have d: "drop c text = SP # (replicate k SP @ rest)" by simp
  note f = drop_Cons_facts [OF d]
  from Suc.IH [OF f(3) Suc.prems(2)] f(1,2) show ?case
    by (subst skip_spaces.simps) simp
qed

lemma skip_line_drop:
  assumes "drop c text = body @ rest" "NL \<notin> set body" "rest = [] \<or> hd rest = NL"
  shows "skip_line text c = c + length body"
  using assms
proof (induction body arbitrary: c)
  case Nil
  show ?case
  proof (cases rest)
    case Nil
    with Nil.prems have "length text \<le> c" by simp
    then show ?thesis by (subst skip_line.simps) simp
  next
    case (Cons x xs)
    with Nil.prems have "char_at text c = Some x" "x = NL" using drop_Cons_facts(2) [of c "text" x xs] by simp_all
    then show ?thesis by (subst skip_line.simps) simp
  qed
next
  case (Cons b body)
  from Cons.prems have d: "drop c text = b # (body @ rest)" and b: "b \<noteq> NL" and nb: "NL \<notin> set body" by auto
  note f = drop_Cons_facts [OF d]
  from Cons.IH [OF f(3) nb Cons.prems(3)] f(1,2) b show ?case
    by (subst skip_line.simps) simp
qed

lemma read_cmd_token:
  assumes "drop c text = tok @ rest" "list_all token_char tok"
  shows "read_cmd text c line a = read_cmd text (c + length tok) line (a @ tok)"
  using assms
proof (induction tok arbitrary: c a)
  case Nil
  then show ?case by simp
next
  case (Cons x tok)
  from Cons.prems have d: "drop c text = x # (tok @ rest)" and t: "list_all token_char tok"
    and "token_char x" by simp_all
  then have x: "x \<noteq> SP" "x \<noteq> HASH" "x \<noteq> NL" by (simp_all add: token_char_def)
  note f = drop_Cons_facts [OF d]
  have "read_cmd text c line a = read_cmd text (c + 1) line (a @ [x])"
    using f(1,2) x by (subst read_cmd.simps) (simp add: str_of_def)
  also have "\<dots> = read_cmd text (c + 1 + length tok) line ((a @ [x]) @ tok)"
    by (rule Cons.IH [OF f(3) t])
  finally show ?case by simp
qed

lemma read_cmd_end:
  "drop c text = [] \<Longrightarrow> read_cmd text c line a = Inr (a, c, False)"
  "drop c text = SP # rest \<Longrightarrow> read_cmd text c line a = Inr (a, c, False)"
  "drop c text = NL # rest \<Longrightarrow> read_cmd text c line a = Inl (ExpectedValueOn a line)"
  "drop c text = HASH # rest \<Longrightarrow> read_cmd text c line a = Inr (a, skip_line text c, True)"
proof -
  show "drop c text = [] \<Longrightarrow> read_cmd text c line a = Inr (a, c, False)"
    by (subst read_cmd.simps) simp
  show "drop c text = SP # rest \<Longrightarrow> read_cmd text c line a = Inr (a, c, False)"
    using drop_Cons_facts [of c "text" SP rest] by (subst read_cmd.simps) simp
  show "drop c text = NL # rest \<Longrightarrow> read_cmd text c line a = Inl (ExpectedValueOn a line)"
    using drop_Cons_facts [of c "text" NL rest] by (subst read_cmd.simps) simp
  show "drop c text = HASH # rest \<Longrightarrow> read_cmd text c line a = Inr (a, skip_line text c, True)"
    using drop_Cons_facts [of c "text" HASH rest] by (subst read_cmd.simps) simp
qed

lemma scan_reach:
  "state_after text n = Some (c, l, r) \<Longrightarrow> scan text = parse_loop text c l r"
proof (induction n arbitrary: c l r)
  case 0
  then show ?case by (simp add: scan_def)
next
  case (Suc n)
  from Suc.prems obtain c0 l0 r0 where s: "state_after text n = Some (c0, l0, r0)"
    and lt: "c0 < length text" and it: "iteration text c0 l0 r0 = Inr (Continue c l r)"
    by (auto split: option.splits if_splits sum.splits outcome.splits)
  from Suc.IH [OF s] have "scan text = parse_loop text c0 l0 r0" .
  also from lt it have "\<dots> = parse_loop text c l r" by (subst parse_loop.simps) simp
  finally show ?case .
qed

lemma parse_abort:
  assumes "state_after text n = Some (c, l, r)" "c < length text" "iteration text c l r = Inl e"
  shows "parse text = Inl e"
proof -
  from assms(2,3) have "parse_loop text c l r = Inl e" by (subst parse_loop.simps) simp
  with scan_reach [OF assms(1)] show ?thesis by (simp add: parse_def)
qed

lemma skip_spaces_stop:
  "skip_spaces text cursor < length text \<Longrightarrow> char_at text (skip_spaces text cursor) \<noteq> Some SP"
proof (induction "text" cursor rule: skip_spaces.induct)
  case (1 t c)
  show ?case
  proof (cases "c < length t \<and> char_at t c = Some SP")
    case True
    then have eq: "skip_spaces t c = skip_spaces t (c + 1)" by (subst skip_spaces.simps) simp
    from "1.prems" eq have "skip_spaces t (c + 1) < length t" by simp
    with "1.IH" True have "char_at t (skip_spaces t (c + 1)) \<noteq> Some SP" by blast
    with eq show ?thesis by simp
  next
    case False
    then have eq: "skip_spaces t c = c" by (subst skip_spaces.simps) auto
    from "1.prems" eq have "c < length t" by simp
    with False eq show ?thesis by simp
  qed
qed

lemma skip_spaces_idem: "skip_spaces text (skip_spaces text cursor) = skip_spaces text cursor"
proof (cases "skip_spaces text cursor < length text")
  case True
  from skip_spaces_stop [OF True] show ?thesis by (subst skip_spaces.simps) simp
next
  case False
  then show ?thesis by (subst skip_spaces.simps) simp
qed

lemma read_cmd_error:
  "read_cmd text c line a = Inl e \<Longrightarrow> \<exists>suffix. e = ExpectedValueOn (a @ suffix) line"
proof (induction "text" c line a rule: read_cmd.induct)
  case (1 t c l a)
  show ?case
  proof (cases "c < length t \<and> char_at t c \<noteq> Some SP")
    case inside: True
    show ?thesis
    proof (cases "char_at t c = Some HASH")
      case True
      with inside "1.prems" show ?thesis by (subst (asm) read_cmd.simps) simp
    next
      case nohash: False
      show ?thesis
      proof (cases "char_at t c = Some NL")
        case True
        with inside nohash "1.prems" have "e = ExpectedValueOn a l"
          by (subst (asm) read_cmd.simps) simp
        then show ?thesis by simp
      next
        case False
        with inside nohash "1.prems"
        have "read_cmd t (c + 1) l (a @ str_of (char_at t c)) = Inl e"
          by (subst (asm) read_cmd.simps) simp
        with "1.IH" inside nohash False
        obtain suffix where "e = ExpectedValueOn ((a @ str_of (char_at t c)) @ suffix) l" by blast
        then show ?thesis by simp
      qed
    qed
  next
    case False
    with "1.prems" show ?thesis by (subst (asm) read_cmd.simps) auto
  qed
qed

text \<open>The token loop, entered at a character that is neither a space nor a newline.\<close>

lemma read_cmd_first:
  assumes "c < length text" "char_at text c \<noteq> Some SP" "char_at text c \<noteq> Some NL"
  shows "read_cmd text c line [] = Inl e \<Longrightarrow> \<exists>cmd. cmd \<noteq> [] \<and> e = ExpectedValueOn cmd line"
    and "read_cmd text c line [] = Inr (cmd, c1, False) \<Longrightarrow> cmd \<noteq> []"
proof -
  from assms obtain x where x: "char_at text c = Some x" by (auto simp: char_at_def)
  {
    assume err: "read_cmd text c line [] = Inl e"
    have nh: "char_at text c \<noteq> Some HASH"
    proof
      assume "char_at text c = Some HASH"
      with assms err show False by (subst (asm) read_cmd.simps) simp
    qed
    with assms err x have "read_cmd text (c + 1) line [x] = Inl e"
      by (subst (asm) read_cmd.simps) (simp add: str_of_def)
    from read_cmd_error [OF this] show "\<exists>cmd. cmd \<noteq> [] \<and> e = ExpectedValueOn cmd line" by auto
  }
  {
    assume ok: "read_cmd text c line [] = Inr (cmd, c1, False)"
    have nh: "char_at text c \<noteq> Some HASH"
    proof
      assume "char_at text c = Some HASH"
      with assms ok show False by (subst (asm) read_cmd.simps) simp
    qed
    with assms ok x have r: "read_cmd text (c + 1) line [x] = Inr (cmd, c1, False)"
      by (subst (asm) read_cmd.simps) (simp add: str_of_def)
    have "\<And>k a. read_cmd text k line a = Inr (cmd, c1, False) \<Longrightarrow> length a \<le> length cmd"
    proof -
      fix k a
      show "read_cmd text k line a = Inr (cmd, c1, False) \<Longrightarrow> length a \<le> length cmd"
      proof (induction "text" k line a rule: read_cmd.induct)
        case (1 t k l a)
        show ?case
        proof (cases "k < length t \<and> char_at t k \<noteq> Some SP")
          case inside: True
          from inside "1.prems" have nh: "char_at t k \<noteq> Some HASH"
            by (subst (asm) read_cmd.simps) (auto split: if_splits)
          from inside nh "1.prems" have nn: "char_at t k \<noteq> Some NL"
            by (subst (asm) read_cmd.simps) (auto split: if_splits)
          from inside nh nn "1.prems" have "read_cmd t (k + 1) l (a @ str_of (char_at t k)) = Inr (cmd, c1, False)"
            by (subst (asm) read_cmd.simps) simp
          with "1.IH" inside nh nn have "length (a @ str_of (char_at t k)) \<le> length cmd" by blast
          then show ?thesis by simp
        next
          case False
          with "1.prems" have "a = cmd" by (subst (asm) read_cmd.simps) auto
          then show ?thesis by simp
        qed
      qed
    qed
    from this [OF r] show "cmd \<noteq> []" by auto
  }
qed

section \<open>Missing arguments\<close>

lemma iteration_line:
  assumes "c0 = skip_spaces text cursor" "c0 < length text" "char_at text c0 \<noteq> Some NL"
  shows "iteration text cursor line result =
     (case read_cmd text c0 line [] of
           Inl e \<Rightarrow> Inl e
         | Inr (cmd, cursor1, skip) \<Rightarrow>
             (case (if \<not> skip then read_argument text cursor1 line cmd
                    else Inr ([], cursor1, line)) of
                Inl e \<Rightarrow> Inl e
              | Inr (args, cursor2, line') \<Rightarrow> finish cmd args cursor2 line' result))"
  using assms by (simp add: iteration_def Let_def)

text \<open>
  C5. Take a pass of the outer loop that the parse reaches and that starts a token (after
  the leading spaces there is a character that is not a newline). If the token loop stops
  at a newline, the token read so far is non-empty and the parse fails with "Expected to
  see a value after <token> on line n". If the token is followed only by spaces up to a
  newline or the end of the input, the parse fails with "Expected to see a value after
  <token> at line n". If a non-empty token has been read and the accumulated argument
  trims to the empty string, the parse fails with "Expected to see a value after <token>
  on line n". These are the three messages of the missing argument. In particular the
  parse of "RUN\n" fails with the first of them.
\<close>

theorem missing_argument:
  assumes "state_after text n = Some (cursor, line, result)" and "cursor < length text"
    and "c0 = skip_spaces text cursor" and "c0 < length text" and "char_at text c0 \<noteq> Some NL"
  shows "parse (js ''RUN\<newline>'') = Inl (ExpectedValueOn (js ''RUN'') 1) \<and>
         (read_cmd text c0 line [] = Inl e \<longrightarrow>
            (\<exists>cmd. cmd \<noteq> [] \<and> e = ExpectedValueOn cmd line) \<and> parse text = Inl e) \<and>
         (read_cmd text c0 line [] = Inr (cmd, c1, False) \<and>
            (length text \<le> skip_spaces text c1 \<or> char_at text (skip_spaces text c1) = Some NL) \<longrightarrow>
            cmd \<noteq> [] \<and> parse text = Inl (ExpectedValueAt cmd line)) \<and>
         (read_cmd text c0 line [] = Inr (cmd, c1, skip) \<and> cmd \<noteq> [] \<and>
            (if \<not> skip then read_argument text c1 line cmd else Inr ([], c1, line)) =
              Inr (args, c2, line') \<and> trim args = [] \<longrightarrow>
            parse text = Inl (ExpectedValueOn cmd line'))"
proof (intro conjI impI)
  show "parse (js ''RUN\<newline>'') = Inl (ExpectedValueOn (js ''RUN'') 1)"
    by code_simp
next
  note it = iteration_line [OF assms(3,4,5), of line result]
  from assms(3,4) have nsp: "char_at text c0 \<noteq> Some SP" using skip_spaces_stop by simp
  {
    assume a: "read_cmd text c0 line [] = Inl e"
    from read_cmd_first(1) [OF assms(4) nsp assms(5) a]
    show "\<exists>cmd. cmd \<noteq> [] \<and> e = ExpectedValueOn cmd line" .
    from a it have "iteration text cursor line result = Inl e" by simp
    from parse_abort [OF assms(1,2) this] show "parse text = Inl e" .
  }
  {
    assume a: "read_cmd text c0 line [] = Inr (cmd, c1, False) \<and>
            (length text \<le> skip_spaces text c1 \<or> char_at text (skip_spaces text c1) = Some NL)"
    then have rc: "read_cmd text c0 line [] = Inr (cmd, c1, False)" by simp
    from read_cmd_first(2) [OF assms(4) nsp assms(5) rc] show "cmd \<noteq> []" .
    from a have "read_argument text c1 line cmd = Inl (ExpectedValueAt cmd line)"
      by (auto simp: read_argument_def Let_def)
    with rc it have "iteration text cursor line result = Inl (ExpectedValueAt cmd line)" by simp
    from parse_abort [OF assms(1,2) this] show "parse text = Inl (ExpectedValueAt cmd line)" .
  }
  {
    assume a: "read_cmd text c0 line [] = Inr (cmd, c1, skip) \<and> cmd \<noteq> [] \<and>
            (if \<not> skip then read_argument text c1 line cmd else Inr ([], c1, line)) =
              Inr (args, c2, line') \<and> trim args = []"
    then have "finish cmd args c2 line' result = Inl (ExpectedValueOn cmd line')"
      by (simp add: finish_def)
    with a it have "iteration text cursor line result = Inl (ExpectedValueOn cmd line')" by simp
    from parse_abort [OF assms(1,2) this] show "parse text = Inl (ExpectedValueOn cmd line')" .
  }
qed

theorem missing_argument_witness:
  "parse (js ''FROM a\<newline>RUN\<newline>'') = Inl (ExpectedValueOn (js ''RUN'') 2) \<and>
   parse (js ''FROM a\<newline>RUN  '') = Inl (ExpectedValueAt (js ''RUN'') 2) \<and>
   parse (js ''RUN '' @ [TAB, NL]) = Inl (ExpectedValueOn (js ''RUN'') 1)"
proof (intro conjI)
  let ?t1 = "js ''FROM a\<newline>RUN\<newline>''"
  let ?r = "[\<lparr>cmd_type = \<lparr>constructor_of = ''CommandType'', ord_field = 0, tokens = [js ''FROM'']\<rparr>,
            cmd_value = js ''a'', cmd_hash = 97\<rparr>]"
  have "state_after ?t1 2 = Some (7, 2, ?r)" "7 < length ?t1" "7 = skip_spaces ?t1 7"
    "char_at ?t1 7 \<noteq> Some NL" "read_cmd ?t1 7 2 [] = Inl (ExpectedValueOn (js ''RUN'') 2)"
    by code_simp+
  with missing_argument [of ?t1 2 7 2 ?r 7 "ExpectedValueOn (js ''RUN'') 2"]
  show "parse ?t1 = Inl (ExpectedValueOn (js ''RUN'') 2)" by simp
next
  let ?t2 = "js ''FROM a\<newline>RUN  ''"
  let ?r = "[\<lparr>cmd_type = \<lparr>constructor_of = ''CommandType'', ord_field = 0, tokens = [js ''FROM'']\<rparr>,
            cmd_value = js ''a'', cmd_hash = 97\<rparr>]"
  have "state_after ?t2 2 = Some (7, 2, ?r)" "7 < length ?t2" "7 = skip_spaces ?t2 7"
    "char_at ?t2 7 \<noteq> Some NL" "read_cmd ?t2 7 2 [] = Inr (js ''RUN'', 10, False)"
    "length ?t2 \<le> skip_spaces ?t2 10"
    by code_simp+
  with missing_argument [of ?t2 2 7 2 ?r 7 _ "js ''RUN''" 10]
  show "parse ?t2 = Inl (ExpectedValueAt (js ''RUN'') 2)" by simp
next
  let ?t3 = "js ''RUN '' @ [TAB, NL]"
  have "state_after ?t3 0 = Some (0, 1, [])" "0 < length ?t3" "0 = skip_spaces ?t3 0"
    "char_at ?t3 0 \<noteq> Some NL" "read_cmd ?t3 0 1 [] = Inr (js ''RUN'', 3, False)"
    "js ''RUN'' \<noteq> []" "read_argument ?t3 3 1 (js ''RUN'') = Inr ([TAB], 5, 1)" "trim [TAB] = []"
    by code_simp+
  with missing_argument [of ?t3 0 0 1 "[]" 0 _ "js ''RUN''" 3 False "[TAB]" 5 1]
  show "parse ?t3 = Inl (ExpectedValueOn (js ''RUN'') 1)" by simp
qed

section \<open>Token resolution\<close>

lemma fromToken_loaded:
  "fromToken loaded token =
     (if token = js ''FROM'' then CommandType_static ''ORIGIN''
      else if token = js ''RUN'' \<or> token = js ''EXEC'' then CommandType_static ''RUN''
      else if token = js ''COPY'' then CommandType_static ''COPY''
      else if token = js ''WORKDIR'' then CommandType_static ''WORKDIR''
      else if token = js ''ENTRYPOINT'' \<or> token = js ''CMD'' then CommandType_static ''ENTRYPOINT''
      else None)"
  by (simp add: fromToken_def Enum_values_def CommandType_static_def loaded_facts)

text \<open>
  C6. A token resolves to ORIGIN exactly when it is "FROM", to RUN exactly when it is
  "RUN" or "EXEC", to COPY for "COPY", to WORKDIR for "WORKDIR", to ENTRYPOINT for
  "ENTRYPOINT" or "CMD", compared character for character in this order of registration,
  and to nothing otherwise; "from" resolves to nothing. A pass that the parse reaches and
  that reads a token and an argument which is not empty after trimming fails with "Invalid
  command <token> on line n" when the token resolves to nothing.
\<close>

theorem token_resolution:
  "fromToken loaded token =
     (if token = js ''FROM'' then CommandType_static ''ORIGIN''
      else if token = js ''RUN'' \<or> token = js ''EXEC'' then CommandType_static ''RUN''
      else if token = js ''COPY'' then CommandType_static ''COPY''
      else if token = js ''WORKDIR'' then CommandType_static ''WORKDIR''
      else if token = js ''ENTRYPOINT'' \<or> token = js ''CMD'' then CommandType_static ''ENTRYPOINT''
      else None) \<and>
   map (\<lambda>k. (ord_field k, tokens k)) (Enum_values loaded CommandType_class) =
     [(0, [js ''FROM'']), (1, [js ''RUN'', js ''EXEC'']), (2, [js ''COPY'']),
      (3, [js ''WORKDIR'']), (4, [js ''ENTRYPOINT'', js ''CMD''])] \<and>
   fromToken loaded (js ''from'') = None \<and>
   (state_after text n = Some (cursor, line, result) \<and> cursor < length text \<and>
    c0 = skip_spaces text cursor \<and> c0 < length text \<and> char_at text c0 \<noteq> Some NL \<and>
    read_cmd text c0 line [] = Inr (cmd, c1, False) \<and>
    read_argument text c1 line cmd = Inr (args, c2, line') \<and> trim args \<noteq> [] \<and>
    fromToken loaded cmd = None \<longrightarrow>
    parse text = Inl (InvalidCommand cmd line'))"
proof (intro conjI impI)
  show "fromToken loaded token =
     (if token = js ''FROM'' then CommandType_static ''ORIGIN''
      else if token = js ''RUN'' \<or> token = js ''EXEC'' then CommandType_static ''RUN''
      else if token = js ''COPY'' then CommandType_static ''COPY''
      else if token = js ''WORKDIR'' then CommandType_static ''WORKDIR''
      else if token = js ''ENTRYPOINT'' \<or> token = js ''CMD'' then CommandType_static ''ENTRYPOINT''
      else None)"
    by (rule fromToken_loaded)
  show "map (\<lambda>k. (ord_field k, tokens k)) (Enum_values loaded CommandType_class) =
     [(0, [js ''FROM'']), (1, [js ''RUN'', js ''EXEC'']), (2, [js ''COPY'']),
      (3, [js ''WORKDIR'']), (4, [js ''ENTRYPOINT'', js ''CMD''])]"
    by (simp add: Enum_values_def loaded_facts)
  show "fromToken loaded (js ''from'') = None"
    by code_simp
  assume a: "state_after text n = Some (cursor, line, result) \<and> cursor < length text \<and>
    c0 = skip_spaces text cursor \<and> c0 < length text \<and> char_at text c0 \<noteq> Some NL \<and>
    read_cmd text c0 line [] = Inr (cmd, c1, False) \<and>
    read_argument text c1 line cmd = Inr (args, c2, line') \<and> trim args \<noteq> [] \<and>
    fromToken loaded cmd = None"
  then have st: "state_after text n = Some (cursor, line, result)" "cursor < length text"
    and c0: "c0 = skip_spaces text cursor" "c0 < length text" "char_at text c0 \<noteq> Some NL"
    and rc: "read_cmd text c0 line [] = Inr (cmd, c1, False)"
    and ra: "read_argument text c1 line cmd = Inr (args, c2, line')"
    and tr: "trim args \<noteq> []" and ft: "fromToken loaded cmd = None"
    by blast+
  from c0 have nsp: "char_at text c0 \<noteq> Some SP" using skip_spaces_stop by blast
  from read_cmd_first(2) [OF c0(2) nsp c0(3) rc] have "cmd \<noteq> []" .
  with tr ft have "finish cmd args c2 line' result = Inl (InvalidCommand cmd line')"
    by (simp add: finish_def)
  with rc ra iteration_line [OF c0, of line result]
  have "iteration text cursor line result = Inl (InvalidCommand cmd line')" by simp
  from parse_abort [OF st this] show "parse text = Inl (InvalidCommand cmd line')" .
qed

theorem token_resolution_witness:
  "parse (js ''FROM a\<newline>from ubuntu\<newline>'') = Inl (InvalidCommand (js ''from'') 2)"
proof -
  let ?t = "js ''FROM a\<newline>from ubuntu\<newline>''"
  let ?r = "[\<lparr>cmd_type = \<lparr>constructor_of = ''CommandType'', ord_field = 0, tokens = [js ''FROM'']\<rparr>,
            cmd_value = js ''a'', cmd_hash = 97\<rparr>]"
  have "state_after ?t 2 = Some (7, 2, ?r)" "7 < length ?t" "7 = skip_spaces ?t 7"
    "char_at ?t 7 \<noteq> Some NL" "read_cmd ?t 7 2 [] = Inr (js ''from'', 11, False)"
    "read_argument ?t 11 2 (js ''from'') = Inr (js ''ubuntu'', 18, 2)" "trim (js ''ubuntu'') \<noteq> []"
    "fromToken loaded (js ''from'') = None"
    by code_simp+
  with token_resolution [of _ ?t 2 7 2 ?r 7 "js ''from''" 11 "js ''ubuntu''" 18 2]
  show ?thesis by simp
qed

section \<open>Tabs\<close>

lemma drop_append_facts:
  assumes "drop c text = a @ b"
  shows "drop (c + length a) text = b"
proof -
  have "drop (c + length a) text = drop (length a) (drop c text)" by (simp add: add.commute)
  with assms show ?thesis by simp
qed

lemma tab_token [simp]: "token_char TAB"
  by (simp add: token_char_def)

lemma skip_spaces_only:
  "k \<le> i \<and> i < skip_spaces text k \<longrightarrow> char_at text i = Some SP"
proof (induction "text" k rule: skip_spaces.induct)
  case (1 t k)
  show ?case
  proof (cases "k < length t \<and> char_at t k = Some SP")
    case True
    then have eq: "skip_spaces t k = skip_spaces t (k + 1)" by (subst skip_spaces.simps) simp
    show ?thesis
    proof
      assume a: "k \<le> i \<and> i < skip_spaces t k"
      show "char_at t i = Some SP"
      proof (cases "i = k")
        case True
        with \<open>k < length t \<and> char_at t k = Some SP\<close> show ?thesis by simp
      next
        case False
        with a eq have "k + 1 \<le> i \<and> i < skip_spaces t (k + 1)" by simp
        with "1.IH" [OF True] show ?thesis by blast
      qed
    qed
  next
    case False
    then have "skip_spaces t k = k" by (subst skip_spaces.simps) auto
    then show ?thesis by auto
  qed
qed

text \<open>
  C10, as stated, fails: in "FROM\tubuntu 20.04\n" the token is followed by a tab, yet the
  parse does not fail with a missing argument at the newline. The token loop stops at the
  space, the argument is "20.04", and the parse fails with "Invalid command <FROM\tubuntu>
  on line 1".
\<close>

theorem tab_in_token_counterexample:
  "parse (js ''FROM'' @ [TAB] @ js ''ubuntu 20.04\<newline>'') =
     Inl (InvalidCommand (js ''FROM'' @ [TAB] @ js ''ubuntu'') 1)"
  by code_simp

text \<open>
  C10, amended. The two skipping loops pass over ASCII spaces only, so a tab is never a
  separator. For every line that the parse reaches in which the token is followed by a tab
  and neither a space nor \<open>#\<close> occurs between the tab and the newline, the tab and the
  characters after it are accumulated into the token, the parse fails at the newline with
  "Expected to see a value after <token> on line n", and such a token resolves to no
  command type.
\<close>

theorem tab_in_token:
  assumes "state_after text n = Some (cursor, line, result)" and "cursor < length text"
    and "drop (skip_spaces text cursor) text = w @ TAB # w' @ NL # rest"
    and "list_all token_char w" and "list_all token_char w'"
  shows "read_cmd text (skip_spaces text cursor) line [] = Inl (ExpectedValueOn (w @ TAB # w') line) \<and>
         parse text = Inl (ExpectedValueOn (w @ TAB # w') line) \<and>
         fromToken loaded (w @ TAB # w') = None \<and>
         (k \<le> i \<and> i < skip_spaces text k \<longrightarrow> char_at text i = Some SP)"
proof (intro conjI)
  let ?c0 = "skip_spaces text cursor"
  let ?tok = "w @ TAB # w'"
  from assms(3) have d: "drop ?c0 text = ?tok @ NL # rest" by simp
  from assms(4,5) have tk: "list_all token_char ?tok" by simp
  obtain x xs where tok: "?tok = x # xs" by (cases ?tok) simp_all
  with tk have x: "x \<noteq> NL" by (simp add: token_char_def)
  from d tok have "drop ?c0 text = x # (xs @ NL # rest)" by simp
  from drop_Cons_facts [OF this] x have c0: "?c0 < length text" "char_at text ?c0 \<noteq> Some NL" by simp_all
  have "read_cmd text ?c0 line [] = read_cmd text (?c0 + length ?tok) line ([] @ ?tok)"
    by (rule read_cmd_token [OF d tk])
  also have "\<dots> = Inl (ExpectedValueOn ?tok line)"
    using read_cmd_end(3) [OF drop_append_facts [OF d]] by simp
  finally show rc: "read_cmd text ?c0 line [] = Inl (ExpectedValueOn ?tok line)" .
  with iteration_line [OF refl c0, of line result]
  have "iteration text cursor line result = Inl (ExpectedValueOn ?tok line)" by simp
  from parse_abort [OF assms(1,2) this] show "parse text = Inl (ExpectedValueOn ?tok line)" .
  have "TAB \<in> set ?tok" by simp
  moreover have "TAB \<notin> set (js ''FROM'')" "TAB \<notin> set (js ''RUN'')" "TAB \<notin> set (js ''EXEC'')"
    "TAB \<notin> set (js ''COPY'')" "TAB \<notin> set (js ''WORKDIR'')" "TAB \<notin> set (js ''ENTRYPOINT'')"
    "TAB \<notin> set (js ''CMD'')"
    by (simp_all add: js_def TAB_def)
  ultimately have "?tok \<noteq> js ''FROM''" "?tok \<noteq> js ''RUN''" "?tok \<noteq> js ''EXEC''"
    "?tok \<noteq> js ''COPY''" "?tok \<noteq> js ''WORKDIR''" "?tok \<noteq> js ''ENTRYPOINT''" "?tok \<noteq> js ''CMD''"
    by metis+
  then show "fromToken loaded ?tok = None" by (simp only: fromToken_loaded if_False simp_thms)
  show "k \<le> i \<and> i < skip_spaces text k \<longrightarrow> char_at text i = Some SP"
    by (rule skip_spaces_only)
qed

theorem tab_in_token_witness:
  "parse (js ''FROM'' @ [TAB] @ js ''ubuntu\<newline>'') =
     Inl (ExpectedValueOn (js ''FROM'' @ [TAB] @ js ''ubuntu'') 1)"
proof -
  let ?t = "js ''FROM'' @ [TAB] @ js ''ubuntu\<newline>''"
  have "state_after ?t 0 = Some (0, 1, [])" "0 < length ?t"
    "drop (skip_spaces ?t 0) ?t = js ''FROM'' @ TAB # js ''ubuntu'' @ NL # []"
    "list_all token_char (js ''FROM'')" "list_all token_char (js ''ubuntu'')"
    by code_simp+
  from tab_in_token [OF this] show ?thesis by simp
qed


section \<open>Escapes\<close>

lemma read_args_last:
  assumes "drop c text = [BSL]"
  shows "read_args text c line a = Inl (InvalidEscaping line)"
proof -
  note f = drop_Cons_facts [OF assms]
  from assms have "length (drop c text) = 1" by simp
  then have "c = length text - 1" by simp
  with f show ?thesis by (subst read_args.simps) simp
qed

lemma read_args_plain:
  assumes "drop c text = x # xs" "x \<noteq> BSL" "x \<noteq> HASH" "x \<noteq> NL"
  shows "read_args text c line a = read_args text (c + 1) line (a @ [x])"
proof -
  note f = drop_Cons_facts [OF assms(1)]
  from f assms(2-) show ?thesis by (subst read_args.simps) (simp add: Let_def str_of_def)
qed

lemma read_args_escape:
  assumes "drop c text = BSL # d # xs"
  shows "read_args text c line a =
     read_args text (c + 2) (if d = NL then line + 1 else line) (a @ [d])"
proof -
  note f = drop_Cons_facts [OF assms]
  note g = drop_Cons_facts [OF f(3)]
  from g(1) have "c \<noteq> length text - 1" by simp
  with f g show ?thesis
    by (subst read_args.simps) (simp add: Let_def str_of_def numeral_2_eq_2)
qed

lemma read_args_escaped:
  "drop c text = body @ [BSL] \<Longrightarrow> escaped_run body \<Longrightarrow>
   read_args text c line a = Inl (InvalidEscaping (line + count_list body NL))"
proof (induction body arbitrary: c line a rule: escaped_run.induct)
  case 1
  then show ?case by (simp add: read_args_last)
next
  case (2 x)
  then have d: "drop c text = x # [BSL]" and x: "x \<noteq> BSL" "x \<noteq> HASH" "x \<noteq> NL" by simp_all
  from drop_Cons_facts(3) [OF d] have "drop (c + 1) text = [BSL]" .
  from read_args_last [OF this] read_args_plain [OF d x] x show ?case by simp
next
  case (3 x d cs)
  show ?case
  proof (cases "x = BSL")
    case True
    with "3.prems" have dr: "drop c text = BSL # d # (cs @ [BSL])" and e: "escaped_run cs" by simp_all
    from drop_Cons_facts(3) [OF dr] have "drop (c + 1) text = d # (cs @ [BSL])" .
    from drop_Cons_facts(3) [OF this] have d2: "drop (c + 2) text = cs @ [BSL]" by (simp add: numeral_2_eq_2)
    from "3.IH"(1) [OF True d2 e] read_args_escape [OF dr] True show ?thesis by simp
  next
    case False
    with "3.prems" have dr: "drop c text = x # (d # cs @ [BSL])" and x: "x \<noteq> BSL" "x \<noteq> HASH" "x \<noteq> NL"
      and e: "escaped_run (d # cs)" by simp_all
    from drop_Cons_facts(3) [OF dr] have d1: "drop (c + 1) text = (d # cs) @ [BSL]" by simp
    from "3.IH"(2) [OF False d1 e] read_args_plain [OF dr x] x show ?thesis by simp
  qed
qed

text \<open>
  C9, as stated, fails: the input "FROM a #\\" ends in a backslash that no backslash
  escapes, and it parses successfully to one command of value "a", because the backslash
  lies in a trailing comment.
\<close>

theorem trailing_backslash_counterexample:
  "last (js ''FROM a #'' @ [BSL]) = BSL \<and>
   map_sum id (map cmd_value) (parse (js ''FROM a #'' @ [BSL])) = Inr [js ''a'']"
  by code_simp

text \<open>
  C9, amended. Take a pass that the parse reaches and that reads a token. If the text from
  the first character of the argument to the end of the input consists of plain characters
  (no backslash, \<open>#\<close> or newline) and of backslashes each followed by the character it
  escapes, and then ends in one more backslash, the parse fails with "Invalid escaping on
  line n", where n counts the escaped newlines of that argument.
\<close>

theorem unterminated_escape:
  assumes "state_after text n = Some (cursor, line, result)" and "cursor < length text"
    and "read_cmd text (skip_spaces text cursor) line [] = Inr (cmd, c1, False)"
    and "drop (skip_spaces text c1) text = body @ [BSL]" and "escaped_run body"
  shows "parse text = Inl (InvalidEscaping (line + count_list body NL))"
proof -
  let ?c0 = "skip_spaces text cursor"
  let ?c2 = "skip_spaces text c1"
  obtain x xs where b: "body @ [BSL] = x # xs" by (cases "body @ [BSL]") simp_all
  with assms(4) have d2: "drop ?c2 text = x # xs" by simp
  note f2 = drop_Cons_facts [OF d2]
  have xnl: "x \<noteq> NL"
  proof (cases body)
    case Nil
    with b show ?thesis by simp
  next
    case (Cons y ys)
    with b have "x = y" by simp
    with Cons assms(5) show ?thesis by (cases ys) (auto split: if_splits)
  qed
  have c0: "?c0 < length text"
  proof (rule ccontr)
    assume "\<not> ?c0 < length text"
    then have "read_cmd text ?c0 line [] = Inr ([], ?c0, False)" by (subst read_cmd.simps) simp
    with assms(3) have "c1 = ?c0" by simp
    with skip_spaces_idem [of "text" cursor] \<open>\<not> ?c0 < length text\<close> f2(1) show False by simp
  qed
  have nnl: "char_at text ?c0 \<noteq> Some NL"
  proof
    assume "char_at text ?c0 = Some NL"
    with c0 skip_spaces_stop [OF c0] have "read_cmd text ?c0 line [] = Inl (ExpectedValueOn [] line)"
      by (subst read_cmd.simps) simp
    with assms(3) show False by simp
  qed
  from f2 xnl have "read_argument text c1 line cmd = read_args text ?c2 line []"
    by (simp add: read_argument_def Let_def)
  also from read_args_escaped [OF assms(4,5)]
  have "\<dots> = Inl (InvalidEscaping (line + count_list body NL))" .
  finally have "iteration text cursor line result = Inl (InvalidEscaping (line + count_list body NL))"
    using iteration_line [OF refl c0 nnl, of line result] assms(3) by simp
  from parse_abort [OF assms(1,2) this] show ?thesis .
qed

theorem unterminated_escape_witness:
  "parse (js ''FROM a\<newline>RUN x '' @ [BSL, NL] @ js ''y'' @ [BSL]) = Inl (InvalidEscaping 3)"
proof -
  let ?t = "js ''FROM a\<newline>RUN x '' @ [BSL, NL] @ js ''y'' @ [BSL]"
  let ?r = "[\<lparr>cmd_type = \<lparr>constructor_of = ''CommandType'', ord_field = 0, tokens = [js ''FROM'']\<rparr>,
            cmd_value = js ''a'', cmd_hash = 97\<rparr>]"
  have "state_after ?t 2 = Some (7, 2, ?r)" "7 < length ?t"
    "read_cmd ?t (skip_spaces ?t 7) 2 [] = Inr (js ''RUN'', 10, False)"
    "drop (skip_spaces ?t 10) ?t = (js ''x '' @ [BSL, NL] @ js ''y'') @ [BSL]"
    "escaped_run (js ''x '' @ [BSL, NL] @ js ''y'')"
    by code_simp+
  from unterminated_escape [OF this] have "parse ?t = Inl (InvalidEscaping (2 + count_list (js ''x '' @ [BSL, NL] @ js ''y'') NL))" .
  moreover have "2 + count_list (js ''x '' @ [BSL, NL] @ js ''y'') NL = 3" by code_simp
  ultimately show ?thesis by simp
qed

section \<open>Blank lines and comments\<close>

lemma lines_of_nonempty: "lines_of s \<noteq> []"
  by (induction s) (auto split: list.splits)

lemma lines_of_append: "lines_of (a @ NL # b) = lines_of a @ lines_of b"
proof (induction a)
  case Nil
  then show ?case by simp
next
  case (Cons c a)
  obtain l ls where l: "lines_of a = l # ls" using lines_of_nonempty [of a] by (cases "lines_of a") auto
  with Cons show ?case by simp
qed

lemma lines_of_single: "NL \<notin> set a \<Longrightarrow> lines_of a = [a]"
  by (induction a) auto

lemma spaces_prefix:
  "takeWhile (\<lambda>x. x = SP) s = replicate (length (takeWhile (\<lambda>x. x = SP) s)) SP"
  by (rule replicate_length_same [symmetric]) (auto dest: set_takeWhileD)

lemma finish_comment: "finish [] [] c l r = Inr (Continue c l r)"
  by (simp add: finish_def trim_def)

lemma blank_comment_loop:
  "list_all blank_or_comment (lines_of (drop c text)) \<Longrightarrow> parse_loop text c line r = Inr r"
proof (induction "length text - c" arbitrary: c line rule: less_induct)
  case less
  show ?case
  proof (cases "c < length text")
    case False
    then show ?thesis by (subst parse_loop.simps) simp
  next
    case inside: True
    define s where "s = drop c text"
    define k where "k = length (takeWhile (\<lambda>x. x = SP) s)"
    define rest where "rest = dropWhile (\<lambda>x. x = SP) s"
    have s: "s = replicate k SP @ rest"
      using spaces_prefix [of s] takeWhile_dropWhile_id [of "\<lambda>x. x = SP" s]
      by (simp add: k_def rest_def)
    have rest: "rest = [] \<or> hd rest \<noteq> SP"
      using hd_dropWhile [of "\<lambda>x. x = SP" s] by (auto simp: rest_def)
    from s have dc: "drop c text = replicate k SP @ rest" by (simp add: s_def)
    from skip_spaces_drop [OF dc rest] have c0: "skip_spaces text c = c + k" .
    from drop_append_facts [OF dc] have d0: "drop (c + k) text = rest" by simp
    from less.prems have all: "list_all blank_or_comment (lines_of s)" by (simp add: s_def)
    show ?thesis
    proof (cases rest)
      case Nil
      with d0 have "length text \<le> c + k" "char_at text (c + k) = None"
        by (simp_all add: char_at_def)
      with c0 have "iteration text c line r = Inr Break" by (simp add: iteration_def Let_def)
      with inside show ?thesis by (subst parse_loop.simps) simp
    next
      case (Cons x xs)
      with d0 have dx: "drop (c + k) text = x # xs" by simp
      note f = drop_Cons_facts [OF dx]
      from Cons rest have xsp: "x \<noteq> SP" by simp
      show ?thesis
      proof (cases "x = NL")
        case True
        with f c0 have "iteration text c line r = Inr (Continue (c + k + 1) (line + 1) r)"
          by (simp add: iteration_def Let_def)
        with inside have step: "parse_loop text c line r = parse_loop text (c + k + 1) (line + 1) r"
          by (subst parse_loop.simps) simp
        from s Cons True have "lines_of s = lines_of (replicate k SP) @ lines_of xs"
          using lines_of_append [of "replicate k SP" xs] by simp
        with all f(3) have "list_all blank_or_comment (lines_of (drop (c + k + 1) text))" by simp
        moreover from inside have "length text - (c + k + 1) < length text - c" by simp
        ultimately have "parse_loop text (c + k + 1) (line + 1) r = Inr r" by (rule less.hyps [rotated])
        with step show ?thesis by simp
      next
        case False
        define body where "body = takeWhile (\<lambda>y. y \<noteq> NL) rest"
        define tail where "tail = dropWhile (\<lambda>y. y \<noteq> NL) rest"
        have bt: "rest = body @ tail" by (simp add: body_def tail_def)
        have nb: "NL \<notin> set body" by (auto simp: body_def dest: set_takeWhileD)
        have tl: "tail = [] \<or> hd tail = NL"
          using hd_dropWhile [of "\<lambda>y. y \<noteq> NL" rest] by (auto simp: tail_def)
        from Cons False have b: "body = x # takeWhile (\<lambda>y. y \<noteq> NL) xs" by (simp add: body_def)
        have first: "blank_or_comment (replicate k SP @ body)"
        proof (cases tail)
          case Nil
          with s bt nb have "lines_of s = [replicate k SP @ body]"
            by (simp add: lines_of_single)
          with all show ?thesis by simp
        next
          case (Cons t ts)
          with tl have "tail = NL # ts" by simp
          with s bt have "s = (replicate k SP @ body) @ NL # ts" by simp
          then have "lines_of s = lines_of (replicate k SP @ body) @ lines_of ts"
            by (simp only: lines_of_append)
          with nb all show ?thesis by (simp add: lines_of_single)
        qed
        have "dropWhile (\<lambda>c. c = SP) (replicate k SP @ body) = dropWhile (\<lambda>c. c = SP) body"
          by (induction k) simp_all
        with xsp b have "dropWhile (\<lambda>c. c = SP) (replicate k SP @ body) = body"
          by simp
        with first b have xh: "x = HASH" by (simp add: blank_or_comment_def)
        from d0 bt have db: "drop (c + k) text = body @ tail" by simp
        from skip_line_drop [OF db nb tl] have sl: "skip_line text (c + k) = c + k + length body" .
        from dx xh have "read_cmd text (c + k) line [] = Inr ([], skip_line text (c + k), True)"
          by (simp add: read_cmd_end(4))
        with f False c0 sl have "iteration text c line r = Inr (Continue (c + k + length body) line r)"
          by (simp add: iteration_def Let_def finish_comment)
        with inside have step: "parse_loop text c line r = parse_loop text (c + k + length body) line r"
          by (subst parse_loop.simps) simp
        from drop_append_facts [OF db] have dt: "drop (c + k + length body) text = tail" .
        have "list_all blank_or_comment (lines_of tail)"
        proof (cases tail)
          case Nil
          then show ?thesis by (simp add: blank_or_comment_def)
        next
          case (Cons t ts)
          with tl have t: "tail = NL # ts" by simp
          with s bt have "s = (replicate k SP @ body) @ NL # ts" by simp
          then have "lines_of s = lines_of (replicate k SP @ body) @ lines_of ts"
            by (simp only: lines_of_append)
          with all have "list_all blank_or_comment (lines_of ts)" by simp
          with t show ?thesis by (simp add: blank_or_comment_def)
        qed
        with dt have "list_all blank_or_comment (lines_of (drop (c + k + length body) text))" by simp
        moreover from inside b have "length text - (c + k + length body) < length text - c" by simp
        ultimately have "parse_loop text (c + k + length body) line r = Inr r"
          by (rule less.hyps [rotated])
        with step show ?thesis by simp
      qed
    qed
  qed
qed

text \<open>
  C7. When every physical line of the input is blank (spaces only) or a comment (\<open>#\<close>
  after the leading spaces), the parse succeeds with the empty command sequence; this
  includes the empty input. The checks on the document accept the empty sequence.
\<close>

theorem blank_and_comment_lines:
  "((\<forall>l \<in> set (lines_of text). blank_or_comment l) \<longrightarrow> parse text = Inr []) \<and>
   parse [] = Inr [] \<and> check_document [] = Inr []"
proof (intro conjI impI)
  show cd: "check_document [] = Inr []" by (simp add: check_document_def)
  {
    assume "\<forall>l \<in> set (lines_of text). blank_or_comment l"
    then have "list_all blank_or_comment (lines_of (drop 0 text))" by (simp add: list_all_iff)
    from blank_comment_loop [OF this] have "scan text = Inr []" by (simp add: scan_def)
    with cd show "parse text = Inr []" by (simp add: parse_def)
  }
  show "parse [] = Inr []" by code_simp
qed

theorem blank_and_comment_lines_witness:
  "lines_of (js ''  # FROM a \<newline>\<newline>   \<newline>#'' @ [BSL, NL] @ js '' #RUN'') =
     [js ''  # FROM a '', [], js ''   '', js ''#'' @ [BSL], js '' #RUN''] \<and>
   parse (js ''  # FROM a \<newline>\<newline>   \<newline>#'' @ [BSL, NL] @ js '' #RUN'') = Inr []"
proof -
  let ?t = "js ''  # FROM a \<newline>\<newline>   \<newline>#'' @ [BSL, NL] @ js '' #RUN''"
  have l: "lines_of ?t = [js ''  # FROM a '', [], js ''   '', js ''#'' @ [BSL], js '' #RUN'']"
    by code_simp
  have "blank_or_comment (js ''  # FROM a '')" "blank_or_comment []" "blank_or_comment (js ''   '')"
    "blank_or_comment (js ''#'' @ [BSL])" "blank_or_comment (js '' #RUN'')"
    by code_simp+
  with l have "\<forall>l \<in> set (lines_of ?t). blank_or_comment l" by simp
  with blank_and_comment_lines [of ?t] l show ?thesis by simp
qed

section \<open>The guards of the enumeration\<close>

lemma Enum_values_constructor: "v \<in> set (Enum_values st ty) \<Longrightarrow> constructor_of v = ty"
  by (auto simp: Enum_values_def)

text \<open>
  C8, as stated, fails for \<open>fromName\<close>: on an enum class that is not closed and has no
  constant yet, \<open>fromName\<close> finds nothing to ask for its name and returns \<open>undefined\<close>
  instead of failing.
\<close>

theorem fromName_unclosed_counterexample:
  "\<not> closed (empty_state :: enum_object enum_state) ''Color'' \<and>
   Enum_fromName (empty_state :: enum_object enum_state) ''Color'' ''RED'' = Inr None"
  by (simp add: empty_state_def Enum_fromName_def Enum_values_def)

text \<open>
  C8, amended. On an object whose class is not closed, \<open>ord()\<close> and \<open>name()\<close> fail with
  "You cannot use unclosed enum". \<open>fromName\<close> on a class that is not closed fails with
  the same error when the class has at least one constant, and returns \<open>undefined\<close> when
  it has none. Constructing an object of a closed class, in particular right after
  \<open>close()\<close>, fails with "Enum type cannot be modified anymore".
\<close>

theorem enum_guards:
  "(\<not> closed st (constructor_of v) \<longrightarrow>
      Enum_ord st v = Inl (UnclosedEnum (constructor_of v)) \<and>
      Enum_name st v = Inl (UnclosedEnum (constructor_of v))) \<and>
   (\<not> closed st ty \<and> Enum_values st ty \<noteq> [] \<longrightarrow>
      Enum_fromName st ty name = Inl (UnclosedEnum ty)) \<and>
   (Enum_values st ty = [] \<longrightarrow> Enum_fromName st ty name = Inr None) \<and>
   (closed st ty \<longrightarrow> Enum_constructor st ty = Inl (EnumCannotBeModified ty)) \<and>
   Enum_constructor (Enum_close st ty) ty = Inl (EnumCannotBeModified ty)"
proof (intro conjI impI)
  assume "\<not> closed st (constructor_of v)"
  then show "Enum_ord st v = Inl (UnclosedEnum (constructor_of v))"
    and "Enum_name st v = Inl (UnclosedEnum (constructor_of v))"
    by (simp_all add: Enum_ord_def Enum_name_def)
next
  assume a: "\<not> closed st ty \<and> Enum_values st ty \<noteq> []"
  then obtain item items where vs: "Enum_values st ty = item # items"
    by (cases "Enum_values st ty") auto
  then have "constructor_of item = ty" using Enum_values_constructor [of item st ty] by simp
  with a have "Enum_name st item = Inl (UnclosedEnum ty)" by (simp add: Enum_name_def)
  with vs show "Enum_fromName st ty name = Inl (UnclosedEnum ty)"
    by (simp add: Enum_fromName_def)
next
  assume "Enum_values st ty = []"
  then show "Enum_fromName st ty name = Inr None" by (simp add: Enum_fromName_def)
next
  assume "closed st ty"
  then show "Enum_constructor st ty = Inl (EnumCannotBeModified ty)"
    by (simp add: Enum_constructor_def)
next
  show "Enum_constructor (Enum_close st ty) ty = Inl (EnumCannotBeModified ty)"
    by (simp add: Enum_constructor_def Enum_close_def)
qed

theorem enum_guards_witness:
  "define_CommandType ''ORIGIN'' [js ''FROM''] (Inr empty_state) =
     Inr \<lparr>values_tbl = (\<lambda>_. None)(''CommandType'' \<mapsto> 1), closed = (\<lambda>_. False),
          frozen = (\<lambda>_. False),
          statics = (\<lambda>_. [])(''CommandType'' :=
            [(''ORIGIN'', \<lparr>constructor_of = ''CommandType'', ord_field = 0,
                             tokens = [js ''FROM'']\<rparr>)])\<rparr> \<and>
   Enum_ord \<lparr>values_tbl = (\<lambda>_. None)(''CommandType'' \<mapsto> 1), closed = (\<lambda>_. False),
          frozen = (\<lambda>_. False),
          statics = (\<lambda>_. [])(''CommandType'' :=
            [(''ORIGIN'', \<lparr>constructor_of = ''CommandType'', ord_field = 0,
                             tokens = [js ''FROM'']\<rparr>)])\<rparr>
       \<lparr>constructor_of = ''CommandType'', ord_field = 0, tokens = [js ''FROM'']\<rparr> =
     Inl (UnclosedEnum ''CommandType'') \<and>
   Enum_name \<lparr>values_tbl = (\<lambda>_. None)(''CommandType'' \<mapsto> 1), closed = (\<lambda>_. False),
          frozen = (\<lambda>_. False),
          statics = (\<lambda>_. [])(''CommandType'' :=
            [(''ORIGIN'', \<lparr>constructor_of = ''CommandType'', ord_field = 0,
                             tokens = [js ''FROM'']\<rparr>)])\<rparr>
       \<lparr>constructor_of = ''CommandType'', ord_field = 0, tokens = [js ''FROM'']\<rparr> =
     Inl (UnclosedEnum ''CommandType'') \<and>
   Enum_fromName \<lparr>values_tbl = (\<lambda>_. None)(''CommandType'' \<mapsto> 1), closed = (\<lambda>_. False),
          frozen = (\<lambda>_. False),
          statics = (\<lambda>_. [])(''CommandType'' :=
            [(''ORIGIN'', \<lparr>constructor_of = ''CommandType'', ord_field = 0,
                             tokens = [js ''FROM'']\<rparr>)])\<rparr> ''CommandType'' ''ORIGIN'' =
     Inl (UnclosedEnum ''CommandType'') \<and>
   Enum_constructor loaded ''CommandType'' = Inl (EnumCannotBeModified ''CommandType'')"
proof -
  let ?o = "\<lparr>constructor_of = ''CommandType'', ord_field = 0, tokens = [js ''FROM'']\<rparr>"
  let ?st = "\<lparr>values_tbl = (\<lambda>_. None)(''CommandType'' \<mapsto> 1), closed = (\<lambda>_. False),
          frozen = (\<lambda>_. False),
          statics = (\<lambda>_. [])(''CommandType'' := [(''ORIGIN'', ?o)])\<rparr>"
  have d: "define_CommandType ''ORIGIN'' [js ''FROM''] (Inr empty_state) = Inr ?st"
    by (simp add: define_CommandType_def CommandType_constructor_def Enum_constructor_def
        static_set_def empty_state_def CommandType_class_def)
  have n: "\<not> closed ?st (constructor_of ?o)" "\<not> closed ?st ''CommandType''"
    and v: "Enum_values ?st ''CommandType'' \<noteq> []"
    by (simp_all add: Enum_values_def)
  have c: "closed loaded ''CommandType''"
    using loaded_facts(1) by (simp add: CommandType_class_def)
  from enum_guards [of ?st ?o "''CommandType''" "''ORIGIN''"] n v
  have "Enum_ord ?st ?o = Inl (UnclosedEnum ''CommandType'')"
    "Enum_name ?st ?o = Inl (UnclosedEnum ''CommandType'')"
    "Enum_fromName ?st ''CommandType'' ''ORIGIN'' = Inl (UnclosedEnum ''CommandType'')"
    by simp_all
  moreover from enum_guards [of loaded _ "''CommandType''"] c
  have "Enum_constructor loaded ''CommandType'' = Inl (EnumCannotBeModified ''CommandType'')"
    by blast
  ultimately show ?thesis using d by simp
qed

end
